theory Spec2Isabelle
  imports Main "HOL-Library.Sublist" "HOL-Library.Word"
begin

section \<open>Full-text search: the inverted index of \<open>fts.go\<close>\<close>

text \<open>
  The development embeds \<open>src/fts.go\<close>. A Go \<open>string\<close> is a sequence of bytes, which is
  what \<^typ>\<open>string\<close> is. A Go \<open>int\<close> document id is only ever compared (\<open><\<close>, \<open>>\<close>, \<open>==\<close>),
  never computed with, so it is modelled as \<^typ>\<open>int\<close>: no overflow can arise.
\<close>

subsection \<open>Slices\<close>

text \<open>
  A Go slice \<open>[]int\<close> is either \<open>nil\<close> or a (possibly empty) sequence. The two are told
  apart by \<open>ids != nil\<close> in \<open>add\<close> and by \<open>r == nil\<close> in \<open>search\<close>, so the model keeps both.

  A slice value of the model is the sequence of its elements: it has no capacity and no
  backing array. That is what the code computes as long as no two slices of the index
  share a backing array. The program begins with \<open>make(index)\<close> and stores only results of
  \<open>append\<close> on the slice it has just read from the same key, whose old header it
  overwrites, so every key owns its array. \<open>search\<close> and \<open>intersection\<close> only read.
  On a map built by hand in which two keys share an array, \<open>append\<close> can write through
  to the other key; the theorems about \<open>add\<close> are therefore stated for indexes built
  from \<open>make(index)\<close> by calls of \<open>add\<close>.
\<close>

datatype slice = nil | Slice "int list"

text \<open>The elements of a slice; \<open>len(nil)\<close> is 0.\<close>

fun elems :: "slice \<Rightarrow> int list" where
  "elems nil = []"
| "elems (Slice xs) = xs"

text \<open>
  \<open>append(s, x)\<close> on a slice that owns its backing array: the elements of \<open>s\<close> followed
  by \<open>x\<close>. The result is never \<open>nil\<close>.
\<close>

fun append_slice :: "slice \<Rightarrow> int \<Rightarrow> slice" where
  "append_slice s x = Slice (elems s @ [x])"

subsection \<open>Documents\<close>

record document =
  Title :: string
  URL :: string
  Text :: string
  URLSHA1 :: "8 word list"
  ID :: int

subsection \<open>The analyzer\<close>

text \<open>
  \<open>analyze\<close> calls five library functions that are not part of the repository:
  \<open>strings.FieldsFunc\<close>, \<open>unicode.IsLetter\<close>, \<open>unicode.IsNumber\<close>, \<open>strings.ToLower\<close> and the
  Snowball stemmer \<open>snowballeng.Stem\<close>. They are parameters of the model, collected in one
  record; every theorem below holds for all of them. A rune is a Unicode code point
  (Go's \<open>int32\<close>).
\<close>

type_synonym rune = "32 word"

record library =
  FieldsFunc :: "string \<Rightarrow> (rune \<Rightarrow> bool) \<Rightarrow> string list"
  IsLetter :: "rune \<Rightarrow> bool"
  IsNumber :: "rune \<Rightarrow> bool"
  ToLower :: "string \<Rightarrow> string"
  Stem :: "string \<Rightarrow> bool \<Rightarrow> string"

definition tokenize :: "library \<Rightarrow> string \<Rightarrow> string list" where
  "tokenize lib text = FieldsFunc lib text (\<lambda>r. \<not> IsLetter lib r \<and> \<not> IsNumber lib r)"

definition lowercaseFilter :: "library \<Rightarrow> string list \<Rightarrow> string list" where
  "lowercaseFilter lib tokens = map (ToLower lib) tokens"

definition stopwords :: "string list" where
  "stopwords = [''a'', ''and'', ''be'', ''have'', ''i'', ''in'', ''of'', ''that'', ''the'', ''to'']"

definition stopwordFilter :: "string list \<Rightarrow> string list" where
  "stopwordFilter tokens = filter (\<lambda>token. token \<notin> set stopwords) tokens"

definition stemmerFilter :: "library \<Rightarrow> string list \<Rightarrow> string list" where
  "stemmerFilter lib tokens = map (\<lambda>token. Stem lib token False) tokens"

definition analyze :: "library \<Rightarrow> string \<Rightarrow> string list" where
  "analyze lib text = stemmerFilter lib (stopwordFilter (lowercaseFilter lib (tokenize lib text)))"

subsection \<open>The index and \<open>add\<close>\<close>

text \<open>
  \<open>type index map[string][]int\<close>. A key may be absent (\<open>None\<close>), or present with a slice
  that may itself be \<open>nil\<close>. A value of the model is a map that has been made
  (\<open>make(index)\<close>, as in \<open>main\<close>, or filled by the decoder): the zero value of the type, the
  nil map, reads like the empty map but panics on a store, and is not a value of the
  model. \<open>Map.empty\<close> is \<open>make(index)\<close>.
\<close>

type_synonym index = "string \<rightharpoonup> slice"

text \<open>The one-result lookup \<open>idx[token]\<close>: an absent key reads as the zero value \<open>nil\<close>.\<close>

definition lookup :: "index \<Rightarrow> string \<Rightarrow> slice" where
  "lookup idx token = (case idx token of None \<Rightarrow> nil | Some ids \<Rightarrow> ids)"

text \<open>
  What can stop the program: a run-time panic (here the index expression
  \<open>ids[len(ids)-1]\<close> on an empty non-nil slice, and the \<open>panic(err)\<close> calls of \<open>main\<close>) or
  \<open>log.Fatal\<close>.
\<close>

datatype failure =
  IndexOutOfRange | StatFailed | OpenFailed | CorpusFailed | CreateFailed | EncodeFailed

text \<open>
  The body of the inner loop of \<open>add\<close>, for one token of the document with id \<open>docID\<close>.
  The map is mutated in place, so the model returns the map as it is when the body ends,
  together with the panic if there was one. The store \<open>idx[token] = append(ids, doc.ID)\<close>
  succeeds, the map being one that has been made.
\<close>

definition add_token :: "index \<Rightarrow> int \<Rightarrow> string \<Rightarrow> index \<times> failure option" where
  "add_token idx docID token =
     (let ids = lookup idx token in
      case ids of
        nil \<Rightarrow> (idx(token \<mapsto> append_slice ids docID), None)
      | Slice xs \<Rightarrow>
          if xs = [] then (idx, Some IndexOutOfRange)
          else if last xs = docID then (idx, None)
          else (idx(token \<mapsto> append_slice ids docID), None))"

text \<open>The inner loop \<open>for _, token := range analyze(doc.Text)\<close>; a panic ends it.\<close>

fun add_tokens :: "index \<Rightarrow> int \<Rightarrow> string list \<Rightarrow> index \<times> failure option" where
  "add_tokens idx docID [] = (idx, None)"
| "add_tokens idx docID (token # tokens) =
     (case add_token idx docID token of
        (idx', Some e) \<Rightarrow> (idx', Some e)
      | (idx', None) \<Rightarrow> add_tokens idx' docID tokens)"

text \<open>The outer loop \<open>for _, doc := range docs\<close>.\<close>

fun add :: "library \<Rightarrow> index \<Rightarrow> document list \<Rightarrow> index \<times> failure option" where
  "add lib idx [] = (idx, None)"
| "add lib idx (doc # docs) =
     (case add_tokens idx (ID doc) (analyze lib (Text doc)) of
        (idx', Some e) \<Rightarrow> (idx', Some e)
      | (idx', None) \<Rightarrow> add lib idx' docs)"

text \<open>A sequence of calls of \<open>add\<close> on the same index; a panic ends the program.\<close>

fun add_calls :: "library \<Rightarrow> index \<Rightarrow> document list list \<Rightarrow> index \<times> failure option" where
  "add_calls lib idx [] = (idx, None)"
| "add_calls lib idx (docs # rest) =
     (case add lib idx docs of
        (idx', Some e) \<Rightarrow> (idx', Some e)
      | (idx', None) \<Rightarrow> add_calls lib idx' rest)"

text \<open>The index built by a sequence of calls of \<open>add\<close> on \<open>make(index)\<close>.\<close>

definition built_index :: "library \<Rightarrow> document list list \<Rightarrow> index" where
  "built_index lib calls = fst (add_calls lib Map.empty calls)"

subsection \<open>\<open>intersection\<close> and \<open>search\<close>\<close>

text \<open>
  The loop of \<open>intersection\<close>, on the two index variables \<open>i\<close>, \<open>j\<close> and the result \<open>r\<close>.
  Both reads are in range under the loop condition.
\<close>

function intersection_loop :: "int list \<Rightarrow> int list \<Rightarrow> nat \<Rightarrow> nat \<Rightarrow> int list \<Rightarrow> int list" where
  "intersection_loop a b i j r =
     (if i < length a \<and> j < length b then
        (if a ! i < b ! j then intersection_loop a b (i + 1) j r
         else if a ! i > b ! j then intersection_loop a b i (j + 1) r
         else intersection_loop a b (i + 1) (j + 1) (r @ [a ! i]))
      else r)"
  by pat_completeness auto
termination
  by (relation "measure (\<lambda>(a, b, i, j, r). (length a - i) + (length b - j))") auto

declare intersection_loop.simps [simp del]

text \<open>\<open>r := make([]int, 0, maxLen)\<close> is not \<open>nil\<close>, whatever the loop appends.\<close>

definition intersection :: "slice \<Rightarrow> slice \<Rightarrow> slice" where
  "intersection a b = Slice (intersection_loop (elems a) (elems b) 0 0 [])"

text \<open>The loop of \<open>search\<close> over the tokens of the query, from the current \<open>r\<close>.\<close>

fun search_loop :: "index \<Rightarrow> slice \<Rightarrow> string list \<Rightarrow> slice" where
  "search_loop idx r [] = r"
| "search_loop idx r (token # tokens) =
     (case idx token of
        Some ids \<Rightarrow>
          if r = nil then search_loop idx ids tokens
          else search_loop idx (intersection r ids) tokens
      | None \<Rightarrow> nil)"

definition search :: "library \<Rightarrow> index \<Rightarrow> string \<Rightarrow> slice" where
  "search lib idx text = search_loop idx nil (analyze lib text)"

subsection \<open>\<open>loadDocuments\<close> and \<open>main\<close>\<close>

text \<open>
  \<open>main\<close> reads and writes files. What the file system answers is an input of the model:
  a \<open>world\<close> says how each of the calls of \<open>main\<close> and \<open>loadDocuments\<close> ends.
\<close>

datatype stat_result = Exists | NotExist | OtherError

record world =
  Stat :: stat_result
  Open_ok :: bool
  Decode :: "index \<Rightarrow> index \<times> bool"
  Corpus :: "document list option"
  SHA1 :: "string \<Rightarrow> 8 word list"
  Create_ok :: bool
  Encode_ok :: "index \<Rightarrow> bool"

text \<open>
  \<^item> \<open>Stat\<close>: \<open>os.Stat(idxFilename)\<close> returns no error, an error for which
    \<open>os.IsNotExist\<close> holds, or another error.
  \<^item> \<open>Open_ok\<close>: \<open>os.Open(idxFilename)\<close> returns no error.
  \<^item> \<open>Decode\<close>: the contents of the map after \<open>decoder.Decode(&idx)\<close>, and whether the call
    returned an error.
  \<^item> \<open>Corpus\<close>: the documents decoded from the compressed XML file, \<open>None\<close> when opening,
    decompressing or decoding fails.
  \<^item> \<open>SHA1\<close>: the digest computed by \<open>crypto/sha1\<close>.
  \<^item> \<open>Create_ok\<close>, \<open>Encode_ok\<close>: \<open>os.Create\<close> and \<open>encoder.Encode(idx)\<close> return no error.
\<close>

text \<open>The loop \<open>for i := range docs\<close> of \<open>loadDocuments\<close>, from position \<open>i\<close>.\<close>

fun number_docs :: "world \<Rightarrow> nat \<Rightarrow> document list \<Rightarrow> document list" where
  "number_docs w i [] = []"
| "number_docs w i (doc # docs) =
     doc\<lparr>URLSHA1 := SHA1 w (URL doc), ID := int i\<rparr> # number_docs w (i + 1) docs"

definition loadDocuments :: "world \<Rightarrow> document list option" where
  "loadDocuments w =
     (case Corpus w of None \<Rightarrow> None | Some docs \<Rightarrow> Some (number_docs w 0 docs))"

text \<open>How a run of the program ends: it prints the result of the query, panics, or exits
  through \<open>log.Fatal\<close>.\<close>

datatype outcome = Printed slice | Panic failure | Fatal failure

definition query :: string where
  "query = ''small wild cat''"

definition main :: "library \<Rightarrow> world \<Rightarrow> outcome" where
  "main lib w =
     (let idx = Map.empty in
      case Stat w of
        Exists \<Rightarrow>
          if \<not> Open_ok w then Panic OpenFailed
          else (let idx = fst (Decode w idx) in Printed (search lib idx query))
      | NotExist \<Rightarrow>
          (case loadDocuments w of
             None \<Rightarrow> Fatal CorpusFailed
           | Some docs \<Rightarrow>
               (case add lib idx docs of
                  (idx, Some e) \<Rightarrow> Panic e
                | (idx, None) \<Rightarrow>
                    if \<not> Create_ok w then Panic CreateFailed
                    else if \<not> Encode_ok w idx then Panic EncodeFailed
                    else Printed (search lib idx query)))
      | OtherError \<Rightarrow> Fatal StatFailed)"

subsection \<open>An instance of the library\<close>

text \<open>
  To evaluate the model on concrete texts, \<open>ascii_lib\<close> instantiates the library on ASCII
  input: every byte is one rune, letters are \<open>A-Z\<close> and \<open>a-z\<close>, numbers are \<open>0-9\<close>, and the
  stemmer returns its argument. The texts used below are made of stop words and of the
  words \<open>small\<close>, \<open>wild\<close>, \<open>cat\<close> and \<open>dog\<close>, which are their own stems.
\<close>

fun ascii_fields :: "(rune \<Rightarrow> bool) \<Rightarrow> string \<Rightarrow> string \<Rightarrow> string list" where
  "ascii_fields f cur [] = (if cur = [] then [] else [cur])"
| "ascii_fields f cur (c # cs) =
     (if f (of_char c) then (if cur = [] then ascii_fields f [] cs else cur # ascii_fields f [] cs)
      else ascii_fields f (cur @ [c]) cs)"

definition ascii_lower :: "char \<Rightarrow> char" where
  "ascii_lower c =
     (if (65::nat) \<le> of_char c \<and> of_char c \<le> (90::nat) then char_of (of_char c + (32::nat)) else c)"

definition ascii_lib :: library where
  "ascii_lib = \<lparr>
     FieldsFunc = (\<lambda>s f. ascii_fields f [] s),
     IsLetter = (\<lambda>r. (65 \<le> r \<and> r \<le> 90) \<or> (97 \<le> r \<and> r \<le> 122)),
     IsNumber = (\<lambda>r. 48 \<le> r \<and> r \<le> 57),
     ToLower = map ascii_lower,
     Stem = (\<lambda>token stemStopWords. token) \<rparr>"

text \<open>A document with the given id and text, the only fields the index reads.\<close>

definition text_doc :: "int \<Rightarrow> string \<Rightarrow> document" where
  "text_doc i text = \<lparr>Title = [], URL = [], Text = text, URLSHA1 = [], ID = i\<rparr>"

subsection \<open>Properties of posting lists and indexes\<close>

text \<open>A posting list is strictly increasing: sorted, with no duplicates.\<close>

definition strictly_increasing :: "int list \<Rightarrow> bool" where
  "strictly_increasing xs = sorted_wrt (<) xs"

definition posting_lists_increasing :: "index \<Rightarrow> bool" where
  "posting_lists_increasing idx = (\<forall>token ids. idx token = Some ids \<longrightarrow> strictly_increasing (elems ids))"

definition posting_lists_not_nil :: "index \<Rightarrow> bool" where
  "posting_lists_not_nil idx = (\<forall>token. idx token \<noteq> Some nil)"

definition posting_lists_nonempty :: "index \<Rightarrow> bool" where
  "posting_lists_nonempty idx = (\<forall>token ids. idx token = Some ids \<longrightarrow> elems ids \<noteq> [])"

text \<open>No key is mapped to an empty slice that is not \<open>nil\<close>.\<close>

definition no_empty_slice :: "index \<Rightarrow> bool" where
  "no_empty_slice idx = (\<forall>token. idx token \<noteq> Some (Slice []))"

definition all_present :: "index \<Rightarrow> string list \<Rightarrow> bool" where
  "all_present idx tokens = (\<forall>token \<in> set tokens. idx token \<noteq> None)"

text \<open>The document id \<open>d\<close> is in the posting list of every one of the tokens.\<close>

definition in_every_posting_list :: "index \<Rightarrow> string list \<Rightarrow> int \<Rightarrow> bool" where
  "in_every_posting_list idx tokens d = (\<forall>token \<in> set tokens. d \<in> set (elems (lookup idx token)))"

text \<open>The document id \<open>d\<close> is in no posting list of the index.\<close>

definition id_absent :: "index \<Rightarrow> int \<Rightarrow> bool" where
  "id_absent idx d = (\<forall>token ids. idx token = Some ids \<longrightarrow> d \<notin> set (elems ids))"

text \<open>Both orderings that follow from being strictly increasing.\<close>

definition posting_lists_sorted_distinct :: "index \<Rightarrow> bool" where
  "posting_lists_sorted_distinct idx =
     (\<forall>token ids. idx token = Some ids \<longrightarrow> sorted (elems ids) \<and> distinct (elems ids))"

text \<open>
  The invariant of \<open>add\<close> while the document with id \<open>b\<close> is processed: every posting
  list is non-empty, strictly increasing and ends with an id that is at most \<open>b\<close>.
\<close>

definition postings_bounded :: "index \<Rightarrow> int \<Rightarrow> bool" where
  "postings_bounded idx b =
     (\<forall>token ids. idx token = Some ids \<longrightarrow>
        elems ids \<noteq> [] \<and> sorted_wrt (<) (elems ids) \<and> last (elems ids) \<le> b)"

text \<open>Wherever the id \<open>d\<close> is in a posting list, it is there once, as the last element.\<close>

definition once_at_end :: "index \<Rightarrow> int \<Rightarrow> bool" where
  "once_at_end idx d =
     (\<forall>token. d \<in> set (elems (lookup idx token)) \<longrightarrow>
        count_list (elems (lookup idx token)) d = 1 \<and> last (elems (lookup idx token)) = d)"

text \<open>The two-pointer scan of \<open>intersection\<close> on the remaining parts of both lists.\<close>

fun isect :: "int list \<Rightarrow> int list \<Rightarrow> int list" where
  "isect [] ys = []"
| "isect (x # xs) [] = []"
| "isect (x # xs) (y # ys) =
     (if x < y then isect xs (y # ys)
      else if x > y then isect (x # xs) ys
      else x # isect xs ys)"

subsection \<open>Concrete indexes, documents and runs\<close>

definition empty_index :: index where
  "empty_index = Map.empty"

text \<open>An index in which the key \<open>cat\<close> is present with the \<open>nil\<close> slice.\<close>

definition nil_index :: index where
  "nil_index = [''cat'' \<mapsto> nil, ''dog'' \<mapsto> Slice [1]]"

text \<open>The index of Scenario 4: \<open>cat\<close> in document 7, \<open>small\<close> in documents 3, 7 and 9.\<close>

definition scenario_index :: index where
  "scenario_index = [''cat'' \<mapsto> Slice [7], ''small'' \<mapsto> Slice [3, 7, 9]]"

text \<open>Three calls of \<open>add\<close>, the last with no document.\<close>

definition sample_calls :: "document list list" where
  "sample_calls = [[text_doc 0 ''A small cat''], [text_doc 1 ''The cat and the wild cat''], []]"

text \<open>A document in which the term \<open>small\<close> occurs twice.\<close>

definition new_doc :: document where
  "new_doc = text_doc 10 ''small cat, small dog''"

text \<open>
  Runs of \<open>main\<close>. In \<open>missing_world\<close> the index file does not exist and every other call
  succeeds. The other worlds differ from it in one answer: the index file exists but
  cannot be opened; creating the new index file fails; encoding the index into it fails.
\<close>

definition corpus_docs :: "document list" where
  "corpus_docs = [text_doc 0 ''A small wild cat'']"

definition missing_world :: world where
  "missing_world = \<lparr>
     Stat = NotExist, Open_ok = True, Decode = (\<lambda>idx. (idx, False)),
     Corpus = Some [text_doc 5 ''A small wild cat''], SHA1 = (\<lambda>url. []),
     Create_ok = True, Encode_ok = (\<lambda>idx. True) \<rparr>"

definition unreadable_world :: world where
  "unreadable_world = missing_world \<lparr> Stat := Exists, Open_ok := False \<rparr>"

definition create_fails_world :: world where
  "create_fails_world = missing_world \<lparr> Create_ok := False \<rparr>"

definition encode_fails_world :: world where
  "encode_fails_world = missing_world \<lparr> Encode_ok := (\<lambda>idx. False) \<rparr>"

section \<open>The model on concrete inputs\<close>

lemma analyze_cat_dog: "analyze ascii_lib ''cat dog'' = [''cat'', ''dog'']"
  by code_simp

lemma analyze_small_cat: "analyze ascii_lib ''small cat'' = [''small'', ''cat'']"
  by code_simp

lemma analyze_blank: "analyze ascii_lib [] = []" "analyze ascii_lib ''   '' = []"
  by code_simp+

lemma analyze_query: "analyze ascii_lib ''small wild cat'' = [''small'', ''wild'', ''cat'']"
  by code_simp

lemma analyze_new_doc:
  "analyze ascii_lib (Text new_doc) = [''small'', ''cat'', ''small'', ''dog'']"
  by code_simp

lemma sample_calls_cat: "fst (add_calls ascii_lib Map.empty sample_calls) ''cat'' = Some (Slice [0, 1])"
  by code_simp

lemma built_sample_cat: "lookup (built_index ascii_lib sample_calls) ''cat'' = Slice [0, 1]"
  by code_simp

lemma add_new_doc_small:
  "lookup (fst (add ascii_lib (built_index ascii_lib sample_calls) [new_doc])) ''small'' = Slice [0, 10]"
  by code_simp

lemma add_new_doc_cat:
  "lookup (fst (add ascii_lib (built_index ascii_lib sample_calls) [new_doc])) ''cat'' = Slice [0, 1, 10]"
  by code_simp

lemma add_new_doc_dog:
  "lookup (fst (add ascii_lib (built_index ascii_lib sample_calls) [new_doc])) ''dog'' = Slice [10]"
  by code_simp

section \<open>Intersection of posting lists\<close>

lemma intersection_loop_isect:
  "intersection_loop a b i j r = r @ isect (drop i a) (drop j b)"
proof (induction a b i j r rule: intersection_loop.induct)
  case (1 a b i j r)
  show ?case
  proof (cases "i < length a \<and> j < length b")
    case False
    then have "drop i a = [] \<or> drop j b = []" by auto
    then have "isect (drop i a) (drop j b) = []"
      by (cases "drop i a") auto
    moreover from False have "intersection_loop a b i j r = r"
      by (subst intersection_loop.simps) auto
    ultimately show ?thesis by simp
  next
    case True
    then have da: "drop i a = a ! i # drop (Suc i) a" and db: "drop j b = b ! j # drop (Suc j) b"
      by (simp_all add: Cons_nth_drop_Suc)
    consider "a ! i < b ! j" | "a ! i > b ! j" | "a ! i = b ! j" by linarith
    then show ?thesis
    proof cases
      case 1
      with True have "intersection_loop a b i j r = intersection_loop a b (i + 1) j r"
        by (subst intersection_loop.simps) simp
      also have "\<dots> = r @ isect (drop (i + 1) a) (drop j b)"
        using True 1 by (rule "1.IH"(1))
      also have "\<dots> = r @ isect (drop i a) (drop j b)"
        using 1 by (simp add: da db)
      finally show ?thesis .
    next
      case 2
      then have n: "\<not> a ! i < b ! j" by simp
      with True 2 have "intersection_loop a b i j r = intersection_loop a b i (j + 1) r"
        by (subst intersection_loop.simps) simp
      also have "\<dots> = r @ isect (drop i a) (drop (j + 1) b)"
        using True n 2 by (rule "1.IH"(2))
      also have "\<dots> = r @ isect (drop i a) (drop j b)"
        using 2 by (simp add: da db)
      finally show ?thesis .
    next
      case 3
      then have n: "\<not> a ! i < b ! j" "\<not> a ! i > b ! j" by simp_all
      with True have "intersection_loop a b i j r = intersection_loop a b (i + 1) (j + 1) (r @ [a ! i])"
        by (subst intersection_loop.simps) simp
      also have "\<dots> = (r @ [a ! i]) @ isect (drop (i + 1) a) (drop (j + 1) b)"
        using True n by (rule "1.IH"(3))
      also have "\<dots> = r @ isect (drop i a) (drop j b)"
        using 3 by (simp add: da db)
      finally show ?thesis .
    qed
  qed
qed

lemma isect_subset: "set (isect xs ys) \<subseteq> set xs \<inter> set ys"
  by (induction xs ys rule: isect.induct) auto

lemma isect_set:
  "sorted_wrt (<) xs \<Longrightarrow> sorted_wrt (<) ys \<Longrightarrow> set (isect xs ys) = set xs \<inter> set ys"
proof (induction xs ys rule: isect.induct)
  case (3 x xs y ys)
  from "3.prems" have sx: "sorted_wrt (<) xs" and sy: "sorted_wrt (<) ys"
    and bx: "\<forall>z \<in> set xs. x < z" and bys: "\<forall>z \<in> set ys. y < z"
    by simp_all
  consider "x < y" | "y < x" | "x = y" by linarith
  then show ?case
  proof cases
    case 1
    then have "set (isect (x # xs) (y # ys)) = set xs \<inter> set (y # ys)"
      using "3.IH"(1) sx "3.prems"(2) by simp
    moreover have "x \<notin> set (y # ys)" using 1 bys by auto
    ultimately show ?thesis by auto
  next
    case 2
    then have "set (isect (x # xs) (y # ys)) = set (x # xs) \<inter> set ys"
      using "3.IH"(2) sy "3.prems"(1) by simp
    moreover have "y \<notin> set (x # xs)" using 2 bx by auto
    ultimately show ?thesis by auto
  next
    case 3
    then have "set (isect (x # xs) (y # ys)) = insert x (set xs \<inter> set ys)"
      using "3.IH"(3) sx sy by simp
    then show ?thesis using 3 by auto
  qed
qed simp_all

lemma isect_sorted: "sorted_wrt (<) xs \<Longrightarrow> sorted_wrt (<) (isect xs ys)"
proof (induction xs ys rule: isect.induct)
  case (3 x xs y ys)
  then show ?case using isect_subset [of xs ys] by auto
qed auto

lemma intersection_elems: "intersection a b = Slice (isect (elems a) (elems b))"
  by (simp add: intersection_def intersection_loop_isect)

section \<open>Search\<close>

lemma search_loop_inter:
  assumes "\<forall>t \<in> set ts. \<exists>ids. idx t = Some ids \<and> sorted_wrt (<) (elems ids)"
    and "sorted_wrt (<) rs"
  shows "\<exists>xs. search_loop idx (Slice rs) ts = Slice xs
           \<and> set xs = set rs \<inter> {d. \<forall>t \<in> set ts. d \<in> set (elems (lookup idx t))}
           \<and> sorted_wrt (<) xs"
  using assms
proof (induction ts arbitrary: rs)
  case Nil
  then show ?case by simp
next
  case (Cons t ts)
  from Cons.prems(1) obtain ids where ids: "idx t = Some ids" "sorted_wrt (<) (elems ids)"
    by auto
  let ?rs = "isect rs (elems ids)"
  have step: "search_loop idx (Slice rs) (t # ts) = search_loop idx (Slice ?rs) ts"
    using ids(1) by (simp add: intersection_elems)
  have "sorted_wrt (<) ?rs"
    using Cons.prems(2) by (rule isect_sorted)
  with Cons.IH [of ?rs] Cons.prems(1) obtain xs where xs:
    "search_loop idx (Slice ?rs) ts = Slice xs"
    "set xs = set ?rs \<inter> {d. \<forall>t \<in> set ts. d \<in> set (elems (lookup idx t))}"
    "sorted_wrt (<) xs"
    by auto
  have "set ?rs = set rs \<inter> set (elems (lookup idx t))"
    using Cons.prems(2) ids by (simp add: isect_set lookup_def)
  with xs(2) have "set xs = set rs \<inter> {d. \<forall>t' \<in> set (t # ts). d \<in> set (elems (lookup idx t'))}"
    by auto
  with step xs(1,3) show ?case by simp
qed

lemma search_loop_absent:
  "token \<in> set tokens \<Longrightarrow> idx token = None \<Longrightarrow> search_loop idx r tokens = nil"
proof (induction tokens arbitrary: r)
  case Nil
  then show ?case by simp
next
  case (Cons t ts)
  show ?case
  proof (cases "idx t")
    case None
    then show ?thesis by simp
  next
    case (Some ids)
    with Cons.prems have "token \<in> set ts" by auto
    with Cons.IH Cons.prems(2) Some show ?thesis by simp
  qed
qed

text \<open>
  Claim C1, as amended. For every index whose posting lists are not \<open>nil\<close> and are strictly
  increasing, and every query whose analysis yields a non-empty list of terms that are all
  keys of the index, \<open>search\<close> returns exactly the document ids that are in the posting
  list of every analysed term, in ascending order and without duplicates. (A strictly
  increasing list is determined by its set of elements.)
\<close>

theorem search_intersection:
  assumes "posting_lists_increasing idx"
    and "posting_lists_not_nil idx"
    and "analyze lib q \<noteq> []"
    and "all_present idx (analyze lib q)"
  shows "set (elems (search lib idx q)) = {d. in_every_posting_list idx (analyze lib q) d}
       \<and> strictly_increasing (elems (search lib idx q))
       \<and> distinct (elems (search lib idx q))"
proof -
  from assms(3) obtain t ts where ts: "analyze lib q = t # ts"
    by (cases "analyze lib q") auto
  have present: "\<forall>t' \<in> set (t # ts). \<exists>ids. idx t' = Some ids \<and> sorted_wrt (<) (elems ids)"
    using assms(1,4) ts
    by (auto simp: all_present_def posting_lists_increasing_def strictly_increasing_def)
  then obtain ids where ids: "idx t = Some ids" "sorted_wrt (<) (elems ids)"
    by auto
  with assms(2) obtain rs where rs: "ids = Slice rs"
    by (cases ids) (auto simp: posting_lists_not_nil_def)
  have start: "search lib idx q = search_loop idx (Slice rs) ts"
    using ts ids(1) rs by (simp add: search_def)
  from present ids(2) rs search_loop_inter [of ts idx rs] obtain xs where xs:
    "search_loop idx (Slice rs) ts = Slice xs"
    "set xs = set rs \<inter> {d. \<forall>t \<in> set ts. d \<in> set (elems (lookup idx t))}"
    "sorted_wrt (<) xs"
    by auto
  have "set rs = set (elems (lookup idx t))"
    using ids(1) rs by (simp add: lookup_def)
  with xs(2) have "set xs = {d. in_every_posting_list idx (t # ts) d}"
    by (auto simp: in_every_posting_list_def)
  moreover have "distinct xs"
    using xs(3) by (simp add: strict_sorted_iff)
  ultimately show ?thesis
    using start xs(1,3) ts by (simp add: strictly_increasing_def)
qed

text \<open>Scenario 4 of the specification: the query \<open>small cat\<close> returns \<open>[7]\<close>.\<close>

lemma scenario_index_ok:
  "posting_lists_increasing scenario_index" "posting_lists_not_nil scenario_index"
  by (auto simp: posting_lists_increasing_def posting_lists_not_nil_def scenario_index_def
      strictly_increasing_def split: if_splits)

theorem search_intersection_witness:
  "posting_lists_increasing scenario_index \<and> posting_lists_not_nil scenario_index
   \<and> analyze ascii_lib ''small cat'' \<noteq> []
   \<and> all_present scenario_index (analyze ascii_lib ''small cat'')
   \<and> set (elems (search ascii_lib scenario_index ''small cat''))
       = {d. in_every_posting_list scenario_index (analyze ascii_lib ''small cat'') d}
   \<and> strictly_increasing (elems (search ascii_lib scenario_index ''small cat''))
   \<and> distinct (elems (search ascii_lib scenario_index ''small cat''))
   \<and> search ascii_lib scenario_index ''small cat'' = Slice [7]"
proof -
  have a: "analyze ascii_lib ''small cat'' \<noteq> []"
    by (simp add: analyze_small_cat)
  have p: "all_present scenario_index (analyze ascii_lib ''small cat'')"
    by (simp add: analyze_small_cat all_present_def scenario_index_def)
  have r: "search ascii_lib scenario_index ''small cat'' = Slice [7]"
    by code_simp
  from search_intersection [OF scenario_index_ok a p] scenario_index_ok a p r
  show ?thesis by blast
qed

text \<open>
  Claim C1 as it was stated, without the requirement that posting lists are not \<open>nil\<close>,
  fails. In \<open>nil_index\<close> the key \<open>cat\<close> is present with the slice \<open>nil\<close>, which is
  (vacuously) strictly increasing. After the first term \<open>r\<close> is still \<open>nil\<close>, so the test
  \<open>r == nil\<close> takes the posting list of \<open>dog\<close> as the result instead of intersecting:
  document 1 is returned although it is not in the posting list of \<open>cat\<close>.
\<close>

theorem search_nil_posting_list_counterexample:
  "posting_lists_increasing nil_index
   \<and> analyze ascii_lib ''cat dog'' \<noteq> []
   \<and> all_present nil_index (analyze ascii_lib ''cat dog'')
   \<and> search ascii_lib nil_index ''cat dog'' = Slice [1]
   \<and> \<not> in_every_posting_list nil_index (analyze ascii_lib ''cat dog'') 1"
proof -
  have "posting_lists_increasing nil_index"
    by (auto simp: posting_lists_increasing_def nil_index_def strictly_increasing_def
        split: if_splits)
  moreover have "search ascii_lib nil_index ''cat dog'' = Slice [1]"
    by code_simp
  moreover have "all_present nil_index (analyze ascii_lib ''cat dog'')"
    by (simp add: analyze_cat_dog all_present_def nil_index_def)
  moreover have "\<not> in_every_posting_list nil_index (analyze ascii_lib ''cat dog'') 1"
    by (simp add: analyze_cat_dog in_every_posting_list_def nil_index_def lookup_def)
  ultimately show ?thesis by (simp add: analyze_cat_dog)
qed

text \<open>
  Claim C4. If a term of the analysed query is not a key of the index, \<open>search\<close> returns
  \<open>nil\<close>, the value for no results. The loop returns at that term: whatever the running
  result \<open>r\<close> and whatever terms remain after it, the value is \<open>nil\<close>.
\<close>

theorem search_absent_term:
  assumes "token \<in> set (analyze lib q)" and "idx token = None"
  shows "search lib idx q = nil \<and> search_loop idx r (token # rest) = nil"
  using assms by (simp add: search_def search_loop_absent)

theorem search_absent_term_witness:
  "''wild'' \<in> set (analyze ascii_lib ''small wild cat'') \<and> scenario_index ''wild'' = None
   \<and> search ascii_lib scenario_index ''small wild cat'' = nil
   \<and> search_loop scenario_index (Slice [3, 7, 9]) [''wild'', ''cat''] = nil"
proof -
  have a: "''wild'' \<in> set (analyze ascii_lib ''small wild cat'')"
    by (simp add: analyze_query)
  have n: "scenario_index ''wild'' = None"
    by (simp add: scenario_index_def)
  from search_absent_term [where idx = scenario_index and r = "Slice [3, 7, 9]"
      and rest = "[''cat'']", OF a n] a n
  show ?thesis by simp
qed

text \<open>
  Claim C7. If the analysis of the query yields no term, \<open>search\<close> returns the \<open>nil\<close>
  slice, whose length is 0: an empty result. The empty string and a string of blanks are
  such queries for \<open>ascii_lib\<close>.
\<close>

theorem search_no_terms:
  assumes "analyze lib q = []"
  shows "search lib idx q = nil \<and> elems (search lib idx q) = []"
  using assms by (simp add: search_def)

theorem search_no_terms_witness:
  "analyze ascii_lib [] = [] \<and> search ascii_lib scenario_index [] = nil
   \<and> elems (search ascii_lib scenario_index []) = []
   \<and> analyze ascii_lib ''   '' = [] \<and> search ascii_lib scenario_index ''   '' = nil
   \<and> elems (search ascii_lib scenario_index ''   '') = []"
  using search_no_terms [OF analyze_blank(1), of scenario_index]
    search_no_terms [OF analyze_blank(2), of scenario_index] analyze_blank
  by simp

section \<open>Building the index\<close>

text \<open>What one execution of the loop body of \<open>add\<close> does, by the three cases of the source.\<close>

lemma add_token_eq:
  "add_token idx d t =
     (if lookup idx t = Slice [] then (idx, Some IndexOutOfRange)
      else if elems (lookup idx t) \<noteq> [] \<and> last (elems (lookup idx t)) = d then (idx, None)
      else (idx(t \<mapsto> Slice (elems (lookup idx t) @ [d])), None))"
  by (simp add: add_token_def Let_def split: slice.split)

lemma lookup_upd: "lookup (idx(t \<mapsto> s)) t' = (if t' = t then s else lookup idx t')"
  by (simp add: lookup_def)

lemma lookup_empty_slice: "lookup idx t = Slice [] \<longleftrightarrow> idx t = Some (Slice [])"
  by (simp add: lookup_def split: option.split)

text \<open>Loops: the result of the inner and outer loop, one step unfolded.\<close>

lemma add_tokens_Cons:
  "add_tokens idx d (t # ts) =
     (if snd (add_token idx d t) = None then add_tokens (fst (add_token idx d t)) d ts
      else add_token idx d t)"
  by (cases "add_token idx d t") (auto split: option.split)

lemma add_Cons:
  "add lib idx (doc # docs) =
     (if snd (add_tokens idx (ID doc) (analyze lib (Text doc))) = None
      then add lib (fst (add_tokens idx (ID doc) (analyze lib (Text doc)))) docs
      else add_tokens idx (ID doc) (analyze lib (Text doc)))"
  by (cases "add_tokens idx (ID doc) (analyze lib (Text doc))") (auto split: option.split)

lemma add_calls_Cons:
  "add_calls lib idx (docs # rest) =
     (if snd (add lib idx docs) = None then add_calls lib (fst (add lib idx docs)) rest
      else add lib idx docs)"
  by (cases "add lib idx docs") (auto split: option.split)

subsection \<open>\<open>add\<close> only appends\<close>

lemma add_token_prefix:
  "prefix (elems (lookup idx t')) (elems (lookup (fst (add_token idx d t)) t'))"
  by (simp add: add_token_eq lookup_upd)

lemma add_tokens_prefix:
  "prefix (elems (lookup idx t')) (elems (lookup (fst (add_tokens idx d ts)) t'))"
proof (induction ts arbitrary: idx)
  case Nil
  then show ?case by simp
next
  case (Cons t ts)
  show ?case
  proof (cases "snd (add_token idx d t) = None")
    case True
    have "prefix (elems (lookup idx t')) (elems (lookup (fst (add_token idx d t)) t'))"
      by (rule add_token_prefix)
    also have "prefix \<dots> (elems (lookup (fst (add_tokens (fst (add_token idx d t)) d ts)) t'))"
      by (rule Cons.IH)
    finally show ?thesis using True by (simp add: add_tokens_Cons del: add_tokens.simps)
  next
    case False
    then show ?thesis by (auto simp add: add_tokens_Cons add_token_prefix simp del: add_tokens.simps)
  qed
qed

lemma add_prefix:
  "prefix (elems (lookup idx t')) (elems (lookup (fst (add lib idx docs)) t'))"
proof (induction docs arbitrary: idx)
  case Nil
  then show ?case by simp
next
  case (Cons doc docs)
  let ?one = "add_tokens idx (ID doc) (analyze lib (Text doc))"
  show ?case
  proof (cases "snd ?one = None")
    case True
    have "prefix (elems (lookup idx t')) (elems (lookup (fst ?one) t'))"
      by (rule add_tokens_prefix)
    also have "prefix \<dots> (elems (lookup (fst (add lib (fst ?one) docs)) t'))"
      by (rule Cons.IH)
    finally show ?thesis using True by (simp add: add_Cons del: add.simps)
  next
    case False
    then show ?thesis by (auto simp add: add_Cons add_tokens_prefix simp del: add.simps)
  qed
qed

subsection \<open>No posting list is empty\<close>

lemma add_token_nonempty:
  assumes "posting_lists_nonempty idx"
  shows "snd (add_token idx d t) = None \<and> posting_lists_nonempty (fst (add_token idx d t))"
proof -
  from assms have "idx t \<noteq> Some (Slice [])"
    unfolding posting_lists_nonempty_def by force
  then have "lookup idx t \<noteq> Slice []"
    by (simp add: lookup_empty_slice)
  with assms show ?thesis
    by (auto simp: add_token_eq posting_lists_nonempty_def)
qed

lemma add_tokens_nonempty:
  "posting_lists_nonempty idx \<Longrightarrow>
     snd (add_tokens idx d ts) = None \<and> posting_lists_nonempty (fst (add_tokens idx d ts))"
proof (induction ts arbitrary: idx)
  case Nil
  then show ?case by simp
next
  case (Cons t ts)
  from add_token_nonempty [OF Cons.prems, of d t] Cons.IH [of "fst (add_token idx d t)"]
  show ?case by (simp add: add_tokens_Cons del: add_tokens.simps)
qed

lemma add_nonempty:
  "posting_lists_nonempty idx \<Longrightarrow>
     snd (add lib idx docs) = None \<and> posting_lists_nonempty (fst (add lib idx docs))"
proof (induction docs arbitrary: idx)
  case Nil
  then show ?case by simp
next
  case (Cons doc docs)
  from add_tokens_nonempty [OF Cons.prems, of "ID doc" "analyze lib (Text doc)"]
    Cons.IH [of "fst (add_tokens idx (ID doc) (analyze lib (Text doc)))"]
  show ?case by (simp add: add_Cons del: add.simps)
qed

lemma add_calls_nonempty:
  "posting_lists_nonempty idx \<Longrightarrow>
     snd (add_calls lib idx calls) = None \<and> posting_lists_nonempty (fst (add_calls lib idx calls))"
proof (induction calls arbitrary: idx)
  case Nil
  then show ?case by simp
next
  case (Cons docs calls)
  from add_nonempty [OF Cons.prems, of lib docs] Cons.IH [of "fst (add lib idx docs)"]
  show ?case by (simp add: add_calls_Cons del: add_calls.simps)
qed

text \<open>
  Claim C9. In an index built from the empty map by calls of \<open>add\<close> alone, every key has
  a non-empty posting list; and none of the calls panics.
\<close>

theorem built_index_nonempty:
  "snd (add_calls lib Map.empty calls) = None
   \<and> posting_lists_nonempty (fst (add_calls lib Map.empty calls))"
  by (rule add_calls_nonempty) (simp add: posting_lists_nonempty_def)

theorem built_index_nonempty_witness:
  "snd (add_calls ascii_lib Map.empty sample_calls) = None
   \<and> posting_lists_nonempty (fst (add_calls ascii_lib Map.empty sample_calls))
   \<and> fst (add_calls ascii_lib Map.empty sample_calls) ''cat'' = Some (Slice [0, 1])"
  using built_index_nonempty [of ascii_lib sample_calls] sample_calls_cat by simp

subsection \<open>Posting lists stay strictly increasing\<close>

lemma postings_bounded_mono:
  "postings_bounded idx b \<Longrightarrow> b \<le> b' \<Longrightarrow> postings_bounded idx b'"
  unfolding postings_bounded_def by force

lemma sorted_snoc_last:
  assumes "sorted_wrt (<) xs" and "xs \<noteq> []" and "last xs < (d::int)"
  shows "sorted_wrt (<) (xs @ [d])"
proof (cases xs rule: rev_cases)
  case Nil
  with assms(2) show ?thesis by simp
next
  case (snoc ys y)
  with assms(1,3) show ?thesis
    by (auto simp: sorted_wrt_append)
qed

lemma add_token_bounded:
  assumes "postings_bounded idx d"
  shows "snd (add_token idx d t) = None \<and> postings_bounded (fst (add_token idx d t)) d"
proof (cases "idx t")
  case None
  then have "add_token idx d t = (idx(t \<mapsto> Slice [d]), None)"
    by (simp add: add_token_eq lookup_def)
  with assms show ?thesis
    by (auto simp: postings_bounded_def)
next
  case (Some ids)
  with assms have ids: "elems ids \<noteq> []" "sorted_wrt (<) (elems ids)" "last (elems ids) \<le> d"
    unfolding postings_bounded_def by blast+
  from Some have l: "lookup idx t = ids" by (simp add: lookup_def)
  show ?thesis
  proof (cases "last (elems ids) = d")
    case True
    with ids(1) l assms show ?thesis
      by (auto simp: add_token_eq)
  next
    case False
    with ids(3) have "last (elems ids) < d" by simp
    with ids(1,2) have "sorted_wrt (<) (elems ids @ [d])"
      by (intro sorted_snoc_last)
    moreover from False ids(1) l
    have "add_token idx d t = (idx(t \<mapsto> Slice (elems ids @ [d])), None)"
      by (auto simp: add_token_eq)
    ultimately show ?thesis using assms
      by (auto simp: postings_bounded_def)
  qed
qed

lemma add_tokens_bounded:
  "postings_bounded idx d \<Longrightarrow>
     snd (add_tokens idx d ts) = None \<and> postings_bounded (fst (add_tokens idx d ts)) d"
proof (induction ts arbitrary: idx)
  case Nil
  then show ?case by simp
next
  case (Cons t ts)
  from add_token_bounded [OF Cons.prems, of t] Cons.IH [of "fst (add_token idx d t)"]
  show ?case by (simp add: add_tokens_Cons del: add_tokens.simps)
qed

lemma add_bounded:
  "postings_bounded idx b \<Longrightarrow> sorted_wrt (<) (map ID docs) \<Longrightarrow> \<forall>doc \<in> set docs. b \<le> ID doc \<Longrightarrow>
     snd (add lib idx docs) = None
     \<and> (\<exists>b' \<in> insert b (ID ` set docs). postings_bounded (fst (add lib idx docs)) b')"
proof (induction docs arbitrary: idx b)
  case Nil
  then show ?case by simp
next
  case (Cons doc docs)
  let ?one = "add_tokens idx (ID doc) (analyze lib (Text doc))"
  from Cons.prems(1,3) have "postings_bounded idx (ID doc)"
    by (auto intro: postings_bounded_mono)
  then have one: "snd ?one = None" "postings_bounded (fst ?one) (ID doc)"
    using add_tokens_bounded by blast+
  from Cons.prems(2) have "sorted_wrt (<) (map ID docs)" "\<forall>doc' \<in> set docs. ID doc \<le> ID doc'"
    by auto
  with Cons.IH [OF one(2)] have
    "snd (add lib (fst ?one) docs) = None
     \<and> (\<exists>b' \<in> insert (ID doc) (ID ` set docs). postings_bounded (fst (add lib (fst ?one) docs)) b')"
    by blast
  with one(1) show ?case
    by (auto simp add: add_Cons simp del: add.simps)
qed

lemma add_calls_bounded:
  "postings_bounded idx b \<Longrightarrow> sorted_wrt (<) (map ID (concat calls)) \<Longrightarrow>
     \<forall>doc \<in> set (concat calls). b \<le> ID doc \<Longrightarrow>
     snd (add_calls lib idx calls) = None
     \<and> (\<exists>b'. postings_bounded (fst (add_calls lib idx calls)) b')"
proof (induction calls arbitrary: idx b)
  case Nil
  then show ?case by auto
next
  case (Cons docs calls)
  from Cons.prems(2) have s: "sorted_wrt (<) (map ID docs)" "sorted_wrt (<) (map ID (concat calls))"
    and lt: "\<forall>x \<in> set docs. \<forall>y \<in> set (concat calls). ID x < ID y"
    by (auto simp: sorted_wrt_append)
  from Cons.prems(3) have "\<forall>doc \<in> set docs. b \<le> ID doc" by simp
  with add_bounded [OF Cons.prems(1) s(1), of lib] obtain b' where b':
    "snd (add lib idx docs) = None" "b' \<in> insert b (ID ` set docs)"
    "postings_bounded (fst (add lib idx docs)) b'"
    by blast
  from b'(2) lt Cons.prems(3) have "\<forall>doc \<in> set (concat calls). b' \<le> ID doc"
    by force
  from Cons.IH [OF b'(3) s(2) this] b'(1) show ?case
    by (simp add: add_calls_Cons del: add_calls.simps)
qed

lemma first_id_least:
  "sorted_wrt (<) (map ID docs) \<Longrightarrow> \<exists>b. \<forall>doc \<in> set docs. b \<le> ID doc"
proof (cases docs)
  case Nil
  then show ?thesis by simp
next
  case (Cons doc rest)
  assume "sorted_wrt (<) (map ID docs)"
  with Cons have "\<forall>doc' \<in> set docs. ID doc \<le> ID doc'"
    by auto
  then show ?thesis ..
qed

text \<open>
  Claim C3. After any sequence of calls of \<open>add\<close> on the empty index whose documents,
  taken over all calls in order, have strictly increasing ids, every posting list of the
  index is strictly increasing, hence sorted and free of duplicates; and none of the calls
  panics.
\<close>

theorem add_keeps_posting_lists_increasing:
  assumes "strictly_increasing (map ID (concat calls))"
  shows "snd (add_calls lib Map.empty calls) = None
       \<and> posting_lists_increasing (fst (add_calls lib Map.empty calls))
       \<and> posting_lists_sorted_distinct (fst (add_calls lib Map.empty calls))"
proof -
  from assms have "\<exists>b. \<forall>doc \<in> set (concat calls). b \<le> ID doc"
    unfolding strictly_increasing_def by (rule first_id_least)
  then obtain b where b: "\<forall>doc \<in> set (concat calls). b \<le> ID doc" ..
  have "postings_bounded Map.empty b"
    by (simp add: postings_bounded_def)
  from add_calls_bounded [OF this _ b, of lib] assms obtain b' where
    "snd (add_calls lib Map.empty calls) = None"
    "postings_bounded (fst (add_calls lib Map.empty calls)) b'"
    by (auto simp: strictly_increasing_def)
  then show ?thesis
    by (auto simp: postings_bounded_def posting_lists_increasing_def strictly_increasing_def
        posting_lists_sorted_distinct_def strict_sorted_iff)
qed

theorem add_keeps_posting_lists_increasing_witness:
  "strictly_increasing (map ID (concat sample_calls))
   \<and> snd (add_calls ascii_lib Map.empty sample_calls) = None
   \<and> posting_lists_increasing (fst (add_calls ascii_lib Map.empty sample_calls))
   \<and> posting_lists_sorted_distinct (fst (add_calls ascii_lib Map.empty sample_calls))
   \<and> fst (add_calls ascii_lib Map.empty sample_calls) ''cat'' = Some (Slice [0, 1])"
proof -
  have h: "strictly_increasing (map ID (concat sample_calls))"
    by (simp add: sample_calls_def text_doc_def strictly_increasing_def)
  from add_keeps_posting_lists_increasing [OF h, of ascii_lib] h sample_calls_cat
  show ?thesis by simp
qed

subsection \<open>The id of a new document is recorded once per term\<close>

lemma add_token_once:
  assumes "no_empty_slice idx" and "once_at_end idx d"
  shows "snd (add_token idx d t) = None
       \<and> no_empty_slice (fst (add_token idx d t))
       \<and> once_at_end (fst (add_token idx d t)) d
       \<and> d \<in> set (elems (lookup (fst (add_token idx d t)) t))"
proof -
  let ?xs = "elems (lookup idx t)"
  from assms(1) have ne: "lookup idx t \<noteq> Slice []"
    by (simp add: lookup_empty_slice no_empty_slice_def)
  show ?thesis
  proof (cases "?xs \<noteq> [] \<and> last ?xs = d")
    case True
    then have "d \<in> set ?xs" using last_in_set by blast
    with True ne assms show ?thesis
      by (simp add: add_token_eq)
  next
    case False
    have "d \<notin> set ?xs"
    proof
      assume "d \<in> set ?xs"
      with assms(2) have "last ?xs = d" "?xs \<noteq> []"
        by (auto simp: once_at_end_def)
      with False show False by simp
    qed
    then have c: "count_list (?xs @ [d]) d = 1"
      by (simp add: count_list_0_iff)
    from False ne have eq: "add_token idx d t = (idx(t \<mapsto> Slice (?xs @ [d])), None)"
      by (auto simp: add_token_eq)
    have "no_empty_slice (idx(t \<mapsto> Slice (?xs @ [d])))"
      using assms(1) by (simp add: no_empty_slice_def)
    moreover have "once_at_end (idx(t \<mapsto> Slice (?xs @ [d]))) d"
      using assms(2) c by (simp add: once_at_end_def lookup_upd)
    ultimately show ?thesis
      using eq by (simp add: lookup_upd)
  qed
qed

lemma add_tokens_once:
  "no_empty_slice idx \<Longrightarrow> once_at_end idx d \<Longrightarrow>
     snd (add_tokens idx d ts) = None
     \<and> no_empty_slice (fst (add_tokens idx d ts))
     \<and> once_at_end (fst (add_tokens idx d ts)) d
     \<and> (\<forall>t \<in> set ts. d \<in> set (elems (lookup (fst (add_tokens idx d ts)) t)))"
proof (induction ts arbitrary: idx)
  case Nil
  then show ?case by simp
next
  case (Cons t ts)
  let ?idx = "fst (add_token idx d t)"
  from add_token_once [OF Cons.prems, of t] have one:
    "snd (add_token idx d t) = None" "no_empty_slice ?idx" "once_at_end ?idx d"
    "d \<in> set (elems (lookup ?idx t))"
    by simp_all
  have "prefix (elems (lookup ?idx t)) (elems (lookup (fst (add_tokens ?idx d ts)) t))"
    by (rule add_tokens_prefix)
  with one(4) have "d \<in> set (elems (lookup (fst (add_tokens ?idx d ts)) t))"
    using set_mono_prefix by blast
  with Cons.IH [OF one(2,3)] one(1) show ?case
    by (simp add: add_tokens_Cons del: add_tokens.simps)
qed

lemma add_once:
  assumes "no_empty_slice idx" and "id_absent idx (ID D)"
  shows "snd (add lib idx [D]) = None
       \<and> (\<forall>t \<in> set (analyze lib (Text D)).
            count_list (elems (lookup (fst (add lib idx [D])) t)) (ID D) = 1)"
proof -
  let ?r = "add_tokens idx (ID D) (analyze lib (Text D))"
  from assms(2) have "once_at_end idx (ID D)"
    by (auto simp: once_at_end_def id_absent_def lookup_def split: option.splits)
  from add_tokens_once [OF assms(1) this, of "analyze lib (Text D)"]
  have r: "snd ?r = None" "once_at_end (fst ?r) (ID D)"
    "\<forall>t \<in> set (analyze lib (Text D)). ID D \<in> set (elems (lookup (fst ?r) t))"
    by simp_all
  from r(1) obtain idx' where "?r = (idx', None)"
    by (cases ?r) auto
  then have "add lib idx [D] = ?r"
    by simp
  with r show ?thesis
    by (simp add: once_at_end_def)
qed

subsection \<open>The ids of an index are ids of the documents added\<close>

lemma add_token_ids:
  "set (elems (lookup (fst (add_token idx d t)) t')) \<subseteq> insert d (set (elems (lookup idx t')))"
  by (auto simp: add_token_eq lookup_upd)

lemma add_tokens_ids:
  "set (elems (lookup (fst (add_tokens idx d ts)) t')) \<subseteq> insert d (set (elems (lookup idx t')))"
proof (induction ts arbitrary: idx)
  case Nil
  then show ?case by auto
next
  case (Cons t ts)
  show ?case
  proof (cases "snd (add_token idx d t) = None")
    case True
    with Cons.IH [of "fst (add_token idx d t)"] add_token_ids [of idx d t t']
    show ?thesis
      by (auto simp add: add_tokens_Cons simp del: add_tokens.simps)
  next
    case False
    with add_token_ids [of idx d t t'] show ?thesis
      by (auto simp add: add_tokens_Cons simp del: add_tokens.simps)
  qed
qed

lemma add_ids:
  "set (elems (lookup (fst (add lib idx docs)) t')) \<subseteq> ID ` set docs \<union> set (elems (lookup idx t'))"
proof (induction docs arbitrary: idx)
  case Nil
  then show ?case by auto
next
  case (Cons doc docs)
  let ?one = "add_tokens idx (ID doc) (analyze lib (Text doc))"
  show ?case
  proof (cases "snd ?one = None")
    case True
    with Cons.IH [of "fst ?one"] add_tokens_ids [of idx "ID doc" "analyze lib (Text doc)" t']
    show ?thesis
      by (auto simp add: add_Cons simp del: add.simps)
  next
    case False
    with add_tokens_ids [of idx "ID doc" "analyze lib (Text doc)" t'] show ?thesis
      by (auto simp add: add_Cons simp del: add.simps)
  qed
qed

lemma add_calls_ids:
  "set (elems (lookup (fst (add_calls lib idx calls)) t'))
     \<subseteq> ID ` set (concat calls) \<union> set (elems (lookup idx t'))"
proof (induction calls arbitrary: idx)
  case Nil
  then show ?case by auto
next
  case (Cons docs calls)
  have ids: "ID ` set (concat (docs # calls)) = ID ` set docs \<union> ID ` set (concat calls)"
    by auto
  show ?case
  proof (cases "snd (add lib idx docs) = None")
    case True
    then have "fst (add_calls lib idx (docs # calls))
        = fst (add_calls lib (fst (add lib idx docs)) calls)"
      by (simp add: add_calls_Cons del: add_calls.simps)
    moreover from Cons.IH [of "fst (add lib idx docs)"] add_ids [of lib idx docs t']
    have "set (elems (lookup (fst (add_calls lib (fst (add lib idx docs)) calls)) t'))
        \<subseteq> ID ` set docs \<union> ID ` set (concat calls) \<union> set (elems (lookup idx t'))"
      by blast
    ultimately show ?thesis
      by (simp only: ids)
  next
    case False
    then have "fst (add_calls lib idx (docs # calls)) = fst (add lib idx docs)"
      by (auto simp add: add_calls_Cons simp del: add_calls.simps)
    moreover from add_ids [of lib idx docs t']
    have "set (elems (lookup (fst (add lib idx docs)) t'))
        \<subseteq> ID ` set docs \<union> ID ` set (concat calls) \<union> set (elems (lookup idx t'))"
      by blast
    ultimately show ?thesis
      by (simp only: ids)
  qed
qed

text \<open>An id that no added document has is in no posting list of the built index.\<close>

lemma id_absent_built:
  assumes "d \<notin> ID ` set (concat calls)"
  shows "id_absent (built_index lib calls) d"
proof -
  have "d \<notin> set (elems ids)" if "built_index lib calls token = Some ids" for token ids
  proof -
    from that have "lookup (built_index lib calls) token = ids"
      by (simp add: lookup_def)
    with add_calls_ids [of lib Map.empty calls token] have
      "set (elems ids) \<subseteq> ID ` set (concat calls) \<union> set (elems (lookup Map.empty token))"
      by (simp add: built_index_def)
    with assms show ?thesis
      by (auto simp: lookup_def)
  qed
  then show ?thesis
    by (simp add: id_absent_def)
qed

lemma built_no_empty_slice: "no_empty_slice (built_index lib calls)"
proof -
  have "posting_lists_nonempty Map.empty"
    by (simp add: posting_lists_nonempty_def)
  then have "posting_lists_nonempty (built_index lib calls)"
    unfolding built_index_def using add_calls_nonempty by blast
  then show ?thesis
    unfolding posting_lists_nonempty_def no_empty_slice_def by force
qed

lemma built_lists_nonempty: "posting_lists_nonempty (built_index lib calls)"
proof -
  have "posting_lists_nonempty Map.empty"
    by (simp add: posting_lists_nonempty_def)
  then show ?thesis
    unfolding built_index_def using add_calls_nonempty by blast
qed

subsection \<open>A call of \<open>add\<close> on a built index\<close>

text \<open>
  Claim C10. \<open>add\<close> only extends posting lists. On an index built from \<open>make(index)\<close> by
  calls of \<open>add\<close>, a further call of \<open>add\<close> returns without a panic, and the posting
  list a term has before the call, if it is not empty, is a prefix of the posting list the
  term has after the call; the term is still a key. No entry is changed, removed or
  reordered.
\<close>

theorem add_extends:
  assumes "elems (lookup (built_index lib calls) token) \<noteq> []"
  shows "snd (add lib (built_index lib calls) docs) = None
       \<and> prefix (elems (lookup (built_index lib calls) token))
            (elems (lookup (fst (add lib (built_index lib calls) docs)) token))
       \<and> fst (add lib (built_index lib calls) docs) token \<noteq> None"
proof -
  let ?idx = "built_index lib calls"
  have n: "snd (add lib ?idx docs) = None"
    using add_nonempty [OF built_lists_nonempty] by blast
  have p: "prefix (elems (lookup ?idx token)) (elems (lookup (fst (add lib ?idx docs)) token))"
    by (rule add_prefix)
  with assms have "elems (lookup (fst (add lib ?idx docs)) token) \<noteq> []"
    by auto
  then have "fst (add lib ?idx docs) token \<noteq> None"
    by (auto simp: lookup_def split: option.splits)
  with n p show ?thesis by simp
qed

theorem add_extends_witness:
  "elems (lookup (built_index ascii_lib sample_calls) ''cat'') \<noteq> []
   \<and> snd (add ascii_lib (built_index ascii_lib sample_calls) [new_doc]) = None
   \<and> prefix (elems (lookup (built_index ascii_lib sample_calls) ''cat''))
        (elems (lookup (fst (add ascii_lib (built_index ascii_lib sample_calls) [new_doc])) ''cat''))
   \<and> fst (add ascii_lib (built_index ascii_lib sample_calls) [new_doc]) ''cat'' \<noteq> None
   \<and> lookup (built_index ascii_lib sample_calls) ''cat'' = Slice [0, 1]
   \<and> lookup (fst (add ascii_lib (built_index ascii_lib sample_calls) [new_doc])) ''cat''
       = Slice [0, 1, 10]"
proof -
  have h: "elems (lookup (built_index ascii_lib sample_calls) ''cat'') \<noteq> []"
    by (simp add: built_sample_cat)
  from add_extends [OF h, of "[new_doc]"] h built_sample_cat add_new_doc_cat
  show ?thesis by simp
qed

text \<open>
  Claim C6. Let the index be built from \<open>make(index)\<close> by calls of \<open>add\<close>, and let \<open>D\<close> be
  a document whose id is in no posting list of the index. Then \<open>add([D])\<close> returns without
  a panic, and afterwards the id of \<open>D\<close> occurs exactly once in the posting list of each
  term of the analysed text of \<open>D\<close>, however often the term occurs in the text.
\<close>

theorem add_id_once:
  assumes "id_absent (built_index lib calls) (ID D)"
  shows "snd (add lib (built_index lib calls) [D]) = None
       \<and> (\<forall>t \<in> set (analyze lib (Text D)).
            count_list (elems (lookup (fst (add lib (built_index lib calls) [D])) t)) (ID D) = 1)"
  using built_no_empty_slice assms by (rule add_once)

theorem add_id_once_witness:
  "id_absent (built_index ascii_lib sample_calls) (ID new_doc)
   \<and> snd (add ascii_lib (built_index ascii_lib sample_calls) [new_doc]) = None
   \<and> analyze ascii_lib (Text new_doc) = [''small'', ''cat'', ''small'', ''dog'']
   \<and> count_list (elems (lookup (fst (add ascii_lib (built_index ascii_lib sample_calls) [new_doc])) ''small'')) (ID new_doc) = 1
   \<and> count_list (elems (lookup (fst (add ascii_lib (built_index ascii_lib sample_calls) [new_doc])) ''cat'')) (ID new_doc) = 1
   \<and> count_list (elems (lookup (fst (add ascii_lib (built_index ascii_lib sample_calls) [new_doc])) ''dog'')) (ID new_doc) = 1
   \<and> lookup (fst (add ascii_lib (built_index ascii_lib sample_calls) [new_doc])) ''small'' = Slice [0, 10]"
proof -
  have "ID new_doc \<notin> ID ` set (concat sample_calls)"
    by (simp add: sample_calls_def new_doc_def text_doc_def)
  then have h: "id_absent (built_index ascii_lib sample_calls) (ID new_doc)"
    by (rule id_absent_built)
  from add_id_once [OF h] h analyze_new_doc add_new_doc_small
  show ?thesis by simp
qed

section \<open>The program\<close>

text \<open>\<open>loadDocuments\<close> numbers the documents by position, so their ids are strictly increasing.\<close>

lemma number_docs_ge: "doc \<in> set (number_docs w i docs) \<Longrightarrow> int i \<le> ID doc"
  by (induction docs arbitrary: i) force+

lemma number_docs_increasing: "sorted_wrt (<) (map ID (number_docs w i docs))"
proof (induction docs arbitrary: i)
  case Nil
  then show ?case by simp
next
  case (Cons doc docs)
  have "int i < ID d" if "d \<in> set (number_docs w (i + 1) docs)" for d
    using number_docs_ge [OF that] by simp
  with Cons.IH [of "i + 1"] show ?case by auto
qed

lemma main_missing_world: "main ascii_lib missing_world = Printed (Slice [0])"
  by code_simp

lemma main_unreadable_world: "main ascii_lib unreadable_world = Panic OpenFailed"
  by code_simp

lemma main_create_fails_world: "main ascii_lib create_fails_world = Panic CreateFailed"
  by code_simp

lemma main_encode_fails_world: "main ascii_lib encode_fails_world = Panic EncodeFailed"
  by code_simp

lemma loadDocuments_missing_world:
  "loadDocuments missing_world = Some corpus_docs"
  "loadDocuments create_fails_world = Some corpus_docs"
  "loadDocuments encode_fails_world = Some corpus_docs"
  by (simp_all add: loadDocuments_def missing_world_def create_fails_world_def
      encode_fails_world_def corpus_docs_def text_doc_def)

lemma search_built_index:
  "search ascii_lib (fst (add ascii_lib empty_index corpus_docs)) query = Slice [0]"
  by code_simp

text \<open>
  Claim C5, as amended. When the index file does not exist and the corpus is loaded, the
  index is built in memory; if creating the index file or encoding the index into it then
  fails, the program panics: the run ends there and the query is not executed.
\<close>

theorem index_write_failure_panics:
  assumes "Stat w = NotExist"
    and "loadDocuments w = Some docs"
    and "\<not> (Create_ok w \<and> Encode_ok w (fst (add lib Map.empty docs)))"
  shows "main lib w = Panic (if Create_ok w then EncodeFailed else CreateFailed)
       \<and> main lib w \<noteq> Printed r"
proof -
  have "posting_lists_nonempty Map.empty"
    by (simp add: posting_lists_nonempty_def)
  then have "snd (add lib Map.empty docs) = None"
    using add_nonempty by blast
  then obtain idx where "add lib Map.empty docs = (idx, None)"
    by (cases "add lib Map.empty docs") auto
  with assms show ?thesis
    by (auto simp: main_def)
qed

theorem index_write_failure_panics_witness:
  "Stat encode_fails_world = NotExist
   \<and> loadDocuments encode_fails_world = Some corpus_docs
   \<and> \<not> (Create_ok encode_fails_world
          \<and> Encode_ok encode_fails_world (fst (add ascii_lib Map.empty corpus_docs)))
   \<and> main ascii_lib encode_fails_world = Panic EncodeFailed
   \<and> main ascii_lib encode_fails_world \<noteq> Printed (Slice [0])"
proof -
  have h1: "Stat encode_fails_world = NotExist"
    by (simp add: encode_fails_world_def missing_world_def)
  have h2: "\<not> (Create_ok encode_fails_world
        \<and> Encode_ok encode_fails_world (fst (add ascii_lib Map.empty corpus_docs)))"
    by (simp add: encode_fails_world_def)
  have c: "Create_ok encode_fails_world"
    by (simp add: encode_fails_world_def missing_world_def)
  from index_write_failure_panics [OF h1 loadDocuments_missing_world(3) h2, of "Slice [0]"]
    h1 h2 c loadDocuments_missing_world(3)
  show ?thesis by simp
qed

text \<open>
  Claim C5 as it was stated fails: in \<open>create_fails_world\<close> the index is built in memory
  without a panic, \<open>os.Create\<close> fails, and the program panics instead of printing the
  result of the query on the index it built.
\<close>

theorem index_write_failure_counterexample:
  "Stat create_fails_world = NotExist
   \<and> loadDocuments create_fails_world = Some corpus_docs
   \<and> snd (add ascii_lib empty_index corpus_docs) = None
   \<and> \<not> Create_ok create_fails_world
   \<and> main ascii_lib create_fails_world = Panic CreateFailed
   \<and> main ascii_lib create_fails_world
        \<noteq> Printed (search ascii_lib (fst (add ascii_lib empty_index corpus_docs)) query)"
proof -
  have "Stat create_fails_world = NotExist" "\<not> Create_ok create_fails_world"
    by (simp_all add: create_fails_world_def missing_world_def)
  moreover have "snd (add ascii_lib empty_index corpus_docs) = None"
    by code_simp
  ultimately show ?thesis
    by (simp add: loadDocuments_missing_world main_create_fails_world)
qed

text \<open>What \<open>main\<close> does when the index file does not exist: the index is rebuilt from the
  corpus, which cannot panic, and written; the query runs last.\<close>

lemma main_rebuild:
  assumes "Stat w = NotExist"
  shows "main lib w =
     (case loadDocuments w of
        None \<Rightarrow> Fatal CorpusFailed
      | Some docs \<Rightarrow>
          if \<not> Create_ok w then Panic CreateFailed
          else if \<not> Encode_ok w (fst (add lib Map.empty docs)) then Panic EncodeFailed
          else Printed (search lib (fst (add lib Map.empty docs)) query))"
proof (cases "loadDocuments w")
  case None
  with assms show ?thesis by (simp add: main_def)
next
  case (Some docs)
  have "posting_lists_nonempty Map.empty"
    by (simp add: posting_lists_nonempty_def)
  then have "snd (add lib Map.empty docs) = None"
    using add_nonempty by blast
  then obtain idx where "add lib Map.empty docs = (idx, None)"
    by (cases "add lib Map.empty docs") auto
  with assms Some show ?thesis
    by (simp add: main_def)
qed

text \<open>
  Claim C8, as amended. An index file that exists but cannot be opened is told apart
  from a missing one. With the unreadable file the program panics at the failed open and
  rebuilds nothing. With the missing file the program rebuilds the index from the corpus:
  it exits through \<open>log.Fatal\<close> if the corpus cannot be loaded, panics if the index file
  cannot be created or encoded, and otherwise prints the result of the query on the
  rebuilt index. The two outcomes are never the same, whatever else the two runs meet.
\<close>

theorem unreadable_index_file_distinguished:
  assumes "Stat w = Exists" and "\<not> Open_ok w" and "Stat w' = NotExist"
  shows "main lib w = Panic OpenFailed
       \<and> main lib w' =
           (case loadDocuments w' of
              None \<Rightarrow> Fatal CorpusFailed
            | Some docs \<Rightarrow>
                if \<not> Create_ok w' then Panic CreateFailed
                else if \<not> Encode_ok w' (fst (add lib Map.empty docs)) then Panic EncodeFailed
                else Printed (search lib (fst (add lib Map.empty docs)) query))
       \<and> main lib w' \<noteq> main lib w"
proof -
  from assms(1,2) have u: "main lib w = Panic OpenFailed"
    by (simp add: main_def)
  note r = main_rebuild [OF assms(3), of lib]
  have "main lib w' \<noteq> Panic OpenFailed"
    unfolding r by (simp split: option.split)
  with u r show ?thesis by simp
qed

theorem unreadable_index_file_distinguished_witness:
  "Stat unreadable_world = Exists \<and> \<not> Open_ok unreadable_world
   \<and> Stat missing_world = NotExist
   \<and> main ascii_lib unreadable_world = Panic OpenFailed
   \<and> main ascii_lib missing_world = Printed (Slice [0])
   \<and> main ascii_lib missing_world \<noteq> main ascii_lib unreadable_world"
proof -
  have h: "Stat unreadable_world = Exists" "\<not> Open_ok unreadable_world"
    "Stat missing_world = NotExist"
    by (simp_all add: unreadable_world_def missing_world_def)
  from unreadable_index_file_distinguished [OF h, of ascii_lib]
  have "main ascii_lib unreadable_world = Panic OpenFailed"
    "main ascii_lib missing_world \<noteq> main ascii_lib unreadable_world"
    by blast+
  with h main_missing_world show ?thesis by blast
qed

text \<open>
  Claim C8 as it was stated fails. \<open>unreadable_world\<close> differs from \<open>missing_world\<close> only
  in what the file system answers about the index file: it exists and cannot be opened.
  There the program panics, while with the missing file the index is rebuilt and the
  query finds document 0.
\<close>

theorem unreadable_index_file_counterexample:
  "Stat unreadable_world = Exists \<and> \<not> Open_ok unreadable_world
   \<and> Stat missing_world = NotExist
   \<and> main ascii_lib unreadable_world = Panic OpenFailed
   \<and> main ascii_lib missing_world = Printed (Slice [0])"
proof -
  have "Stat unreadable_world = Exists" "\<not> Open_ok unreadable_world"
    "Stat missing_world = NotExist"
    by (simp_all add: unreadable_world_def missing_world_def)
  then show ?thesis
    by (simp add: main_unreadable_world main_missing_world)
qed

end
